theory Spec2Isabelle
  imports Main "HOL-Library.Word"
begin

section \<open>TreeOfWork: the Work node of tree\_of\_work.h\<close>

text \<open>
  The header defines one class, \<^verbatim>\<open>TreeOfWork::Work\<close>: a node of a graph of worker
  threads.  Nodes are shared through \<^verbatim>\<open>std::shared_ptr<Work>\<close>, several parents may hold
  the same child, and every method mutates the node it is called on.  The model therefore
  keeps an explicit store from addresses to nodes and passes it through every method.

  Each method is modelled as one indivisible step on the store.  What a thread does between
  two such steps, and what two threads do to one node at the same moment, is outside the
  model.
\<close>

subsection \<open>Data\<close>

text \<open>\<^verbatim>\<open>enum class State\<close> and \<^verbatim>\<open>enum class Conditional\<close>.\<close>

datatype State = Created | Running | Completed | Failed

datatype Conditional = OR | AND

text \<open>
  A \<^verbatim>\<open>std::shared_ptr<Work>\<close> is either null (\<open>None\<close>) or the address of a live node.
  \<^verbatim>\<open>WorkerSet\<close> is a vector of such pointers.
\<close>

type_synonym addr = nat
type_synonym ptr = "addr option"
type_synonym WorkerSet = "ptr list"

text \<open>
  The members of \<^verbatim>\<open>Work\<close>, in the order of their declaration.
  \<^item> \<open>m_worker\<close> is the worker function; its type is left open, no method looks into it.
  \<^item> \<^verbatim>\<open>m_control\<close> is not a field here: it holds the two closures
    \<^verbatim>\<open>bind(&Work::done, this, Completed)\<close> and \<^verbatim>\<open>bind(&Work::done, this, Failed)\<close>, which
    are the functions \<open>set_completed\<close> and \<open>set_failed\<close> below applied to the node's address.
  \<^item> \<open>m_promise_done\<close> is \<open>True\<close> when the shared state of the promise holds its value
    (\<^verbatim>\<open>set_value\<close> has been called on it).
  \<^item> \<open>m_is_done\<close> is \<open>True\<close> when the future is \<^verbatim>\<open>valid()\<close>, that is, it still refers to
    the shared state of \<open>m_promise_done\<close>; \<^verbatim>\<open>get()\<close> makes it invalid.
  \<^item> the two counters are \<^verbatim>\<open>size_t\<close>, taken as 64-bit words.
\<close>

record 'f Work =
  m_state :: State
  m_children :: WorkerSet
  m_worker :: 'f
  m_promise_done :: bool
  m_is_done :: bool
  m_parent_count :: "64 word"
  m_parent_done_count :: "64 word"
  m_trigger_condition :: Conditional

text \<open>
  What a method does that is visible from outside the store, in the order in which it
  happens: the state written by \<^verbatim>\<open>done\<close>, the \<^verbatim>\<open>set_value\<close> on the promise, each call
  of \<^verbatim>\<open>child->trigger\<close> made by the fan-out of \<^verbatim>\<open>done\<close> (parent, child, state passed),
  and each worker thread started by \<^verbatim>\<open>trigger\<close>.
\<close>

datatype event =
    StateRecorded addr State
  | SignalPublished addr
  | ChildTriggered addr addr State
  | WorkerLaunched addr

record 'f system =
  heap :: "addr \<Rightarrow> 'f Work"
  trace :: "event list"

text \<open>
  How a call can fail to return normally.  The state at the point of failure is kept with
  the error.
  \<^item> \<open>NullPointerDereference\<close>: \<^verbatim>\<open>->\<close> on a null \<^verbatim>\<open>shared_ptr\<close> (undefined behaviour).
  \<^item> \<open>PromiseAlreadySatisfied\<close>: the \<^verbatim>\<open>std::future_error\<close> thrown by \<^verbatim>\<open>set_value\<close> on a
    promise that already holds its value.
  \<^item> \<open>Blocked\<close>: the call sits in \<^verbatim>\<open>m_is_done.get()\<close> and cannot return in this state.
  \<^item> \<open>OutOfFuel\<close>: the recursion of a deep \<^verbatim>\<open>reset\<close> is deeper than the fuel given.
\<close>

datatype error = NullPointerDereference | PromiseAlreadySatisfied | Blocked | OutOfFuel

type_synonym 'f result = "error \<times> 'f system + 'f system"

subsection \<open>Construction\<close>

text \<open>The constructor \<^verbatim>\<open>Work(const WorkerFunc& f)\<close>, member initialiser by member initialiser.\<close>

definition new_Work :: "'f \<Rightarrow> 'f Work" where
  "new_Work f =
     \<lparr> m_state = Created,
       m_children = [],
       m_worker = f,
       m_promise_done = False,
       m_is_done = True,
       m_parent_count = 0,
       m_parent_done_count = 0,
       m_trigger_condition = OR \<rparr>"

text \<open>
  A store in which every address holds a node as the constructor leaves it, and nothing has
  happened yet: the starting point of the concrete scenarios below.
\<close>

definition init_system :: "'f \<Rightarrow> 'f system" where
  "init_system f = \<lparr> heap = (\<lambda>_. new_Work f), trace = [] \<rparr>"

subsection \<open>trigger\<close>

text \<open>
  \<^verbatim>\<open>void trigger(const Work::State parent_state = Work::State::Completed)\<close>.
  The decrement is guarded by \<^verbatim>\<open>m_parent_count > 0\<close>; the \<^verbatim>\<open>switch\<close> has one case per
  value of the enum.  Starting the detached thread is the event \<open>WorkerLaunched\<close>.
\<close>

definition trigger :: "'f system \<Rightarrow> addr \<Rightarrow> State \<Rightarrow> 'f system" where
  "trigger s a parent_state =
     (let w = heap s a in
      if m_state w = Created then
        if parent_state = Completed then
          let w1 = (if 0 < m_parent_count w
                    then w\<lparr>m_parent_count := m_parent_count w - 1\<rparr> else w);
              run_now = (case m_trigger_condition w1 of
                           OR \<Rightarrow> True
                         | AND \<Rightarrow> m_parent_count w1 = 0)
          in if run_now
             then s\<lparr>heap := (heap s)(a := w1\<lparr>m_state := Running\<rparr>),
                    trace := trace s @ [WorkerLaunched a]\<rparr>
             else s\<lparr>heap := (heap s)(a := w1)\<rparr>
        else s
      else s)"

subsection \<open>register\_child, set\_trigger\_condition and the wiring helpers\<close>

text \<open>
  \<^verbatim>\<open>void register_child(const std::shared_ptr<Work>& child)\<close>: every write goes to the node
  the method is called on (\<^verbatim>\<open>this\<close>), the child is only stored.
\<close>

definition register_child :: "'f system \<Rightarrow> addr \<Rightarrow> ptr \<Rightarrow> 'f system" where
  "register_child s a child =
     (let w = heap s a;
          n = m_parent_count w + 1
      in s\<lparr>heap := (heap s)(a := w\<lparr>m_children := m_children w @ [child],
                                    m_parent_count := n,
                                    m_parent_done_count := n\<rparr>)\<rparr>)"

definition set_trigger_condition :: "'f system \<Rightarrow> addr \<Rightarrow> Conditional \<Rightarrow> 'f system" where
  "set_trigger_condition s a c =
     s\<lparr>heap := (heap s)(a := (heap s a)\<lparr>m_trigger_condition := c\<rparr>)\<rparr>"

text \<open>
  \<^verbatim>\<open>execute_if_all_finished\<close> and \<^verbatim>\<open>execute_if_any_finished\<close> are the same two nested loops
  and differ only in the constant given to \<^verbatim>\<open>set_trigger_condition\<close>; the loops are written
  once, with that constant as parameter.  The body dereferences the child first, then the
  parent.
\<close>

fun wire_children :: "Conditional \<Rightarrow> 'f system \<Rightarrow> ptr \<Rightarrow> WorkerSet \<Rightarrow> 'f result" where
  "wire_children c s parent [] = Inr s"
| "wire_children c s parent (child # children) =
     (case child of
        None \<Rightarrow> Inl (NullPointerDereference, s)
      | Some ch \<Rightarrow>
          let s1 = set_trigger_condition s ch c in
          (case parent of
             None \<Rightarrow> Inl (NullPointerDereference, s1)
           | Some p \<Rightarrow> wire_children c (register_child s1 p child) parent children))"

fun wire_parents :: "Conditional \<Rightarrow> 'f system \<Rightarrow> WorkerSet \<Rightarrow> WorkerSet \<Rightarrow> 'f result" where
  "wire_parents c s [] children = Inr s"
| "wire_parents c s (parent # parents) children =
     (case wire_children c s parent children of
        Inl e \<Rightarrow> Inl e
      | Inr s1 \<Rightarrow> wire_parents c s1 parents children)"

definition execute_if_all_finished :: "'f system \<Rightarrow> WorkerSet \<Rightarrow> WorkerSet \<Rightarrow> 'f result" where
  "execute_if_all_finished s parents children = wire_parents AND s parents children"

definition execute_if_any_finished :: "'f system \<Rightarrow> WorkerSet \<Rightarrow> WorkerSet \<Rightarrow> 'f result" where
  "execute_if_any_finished s parents children = wire_parents OR s parents children"

subsection \<open>done and the control handle\<close>

text \<open>
  The loop of \<^verbatim>\<open>done\<close> over \<^verbatim>\<open>m_children\<close>: null children are skipped, every other child is
  triggered with \<^verbatim>\<open>m_state.load()\<close>, read anew in each round.
\<close>

fun fan_out :: "'f system \<Rightarrow> addr \<Rightarrow> WorkerSet \<Rightarrow> 'f system" where
  "fan_out s a [] = s"
| "fan_out s a (child # children) =
     (case child of
        None \<Rightarrow> fan_out s a children
      | Some c \<Rightarrow>
          let st = m_state (heap s a) in
          fan_out (trigger (s\<lparr>trace := trace s @ [ChildTriggered a c st]\<rparr>) c st) a children)"

text \<open>
  \<^verbatim>\<open>void done(const Work::State result)\<close> (the name \<open>done\<close> is taken in Isabelle).
  The state is written first; \<^verbatim>\<open>set_value\<close> throws if the promise already holds its value,
  and then the loop is not reached.
\<close>

definition work_done :: "'f system \<Rightarrow> addr \<Rightarrow> State \<Rightarrow> 'f result" where
  "work_done s a result =
     (let s1 = s\<lparr>heap := (heap s)(a := (heap s a)\<lparr>m_state := result\<rparr>),
                 trace := trace s @ [StateRecorded a result]\<rparr>
      in if m_promise_done (heap s1 a) then Inl (PromiseAlreadySatisfied, s1)
         else
           let s2 = s1\<lparr>heap := (heap s1)(a := (heap s1 a)\<lparr>m_promise_done := True\<rparr>),
                       trace := trace s1 @ [SignalPublished a]\<rparr>
           in Inr (fan_out s2 a (m_children (heap s2 a))))"

text \<open>The two members of \<^verbatim>\<open>m_control\<close>.\<close>

definition set_completed :: "'f system \<Rightarrow> addr \<Rightarrow> 'f result" where
  "set_completed s a = work_done s a Completed"

definition set_failed :: "'f system \<Rightarrow> addr \<Rightarrow> 'f result" where
  "set_failed s a = work_done s a Failed"

subsection \<open>wait\_for\_done and reset\<close>

text \<open>
  \<^verbatim>\<open>m_is_done.get()\<close>: blocks until the shared state holds the value, then returns it and
  leaves the future invalid.  Applied to a state in which the value is there, it is the
  return of a call that was blocked before.
\<close>

definition future_get :: "'f system \<Rightarrow> addr \<Rightarrow> 'f result" where
  "future_get s a =
     (if m_promise_done (heap s a)
      then Inr (s\<lparr>heap := (heap s)(a := (heap s a)\<lparr>m_is_done := False\<rparr>)\<rparr>)
      else Inl (Blocked, s))"

text \<open>
  \<^verbatim>\<open>void wait_for_done()\<close>: \<^verbatim>\<open>wait_for(seconds(0)) != ready\<close> holds exactly when the shared
  state does not hold the value yet.
\<close>

definition wait_for_done :: "'f system \<Rightarrow> addr \<Rightarrow> 'f result" where
  "wait_for_done s a =
     (if m_is_done (heap s a) \<and> \<not> m_promise_done (heap s a)
      then future_get s a
      else Inr s)"

text \<open>
  \<^verbatim>\<open>void reset(bool deep = false)\<close>.  The recursion runs through the children stored in the
  heap and need not end (a node may reach itself), so it is bounded by fuel: the first
  argument is the depth of calls allowed.  The new promise holds no value and the new
  future is valid.  On a \<open>Running\<close> node whose signal is not published the call is
  \<open>Blocked\<close>; what \<^verbatim>\<open>get()\<close> does to the future when it returns later is overwritten by
  the assignments that follow it, so the call in that later state gives the same result.
\<close>

fun reset :: "nat \<Rightarrow> 'f system \<Rightarrow> addr \<Rightarrow> bool \<Rightarrow> 'f result"
  and reset_children :: "nat \<Rightarrow> 'f system \<Rightarrow> WorkerSet \<Rightarrow> bool \<Rightarrow> 'f result" where
  "reset 0 s a deep = Inl (OutOfFuel, s)"
| "reset (Suc n) s a deep =
     (case (if m_state (heap s a) = Running then wait_for_done s a else Inr s) of
        Inl e \<Rightarrow> Inl e
      | Inr s0 \<Rightarrow>
          let w = heap s0 a;
              s1 = s0\<lparr>heap := (heap s0)(a := w\<lparr>m_state := Created,
                                                m_promise_done := False,
                                                m_is_done := True,
                                                m_parent_done_count := m_parent_count w\<rparr>)\<rparr>
          in if deep then reset_children n s1 (m_children (heap s1 a)) deep else Inr s1)"
| "reset_children n s [] deep = Inr s"
| "reset_children n s (child # children) deep =
     (case child of
        None \<Rightarrow> reset_children n s children deep
      | Some c \<Rightarrow>
          (case reset n s c deep of
             Inl e \<Rightarrow> Inl e
           | Inr s1 \<Rightarrow> reset_children n s1 children deep))"

subsection \<open>Reading the trace\<close>

text \<open>
  \<open>fan_out_event a r e\<close>: the event \<open>e\<close> is one that the loop of \<^verbatim>\<open>done\<close> on node \<open>a\<close>
  may produce when the state it reads is \<open>r\<close>: a trigger call made by \<open>a\<close> that passes
  \<open>r\<close>, or a worker started by such a call.
\<close>

fun fan_out_event :: "addr \<Rightarrow> State \<Rightarrow> event \<Rightarrow> bool" where
  "fan_out_event a r (ChildTriggered p c st) = (p = a \<and> st = r)"
| "fan_out_event a r (WorkerLaunched c) = True"
| "fan_out_event a r (StateRecorded b st) = False"
| "fan_out_event a r (SignalPublished b) = False"

text \<open>\<open>is_trigger_of a c e\<close>: the event \<open>e\<close> is a trigger call made by \<open>a\<close> on the child \<open>c\<close>.\<close>

fun is_trigger_of :: "addr \<Rightarrow> addr \<Rightarrow> event \<Rightarrow> bool" where
  "is_trigger_of a c (ChildTriggered p ch st) = (p = a \<and> ch = c)"
| "is_trigger_of a c (WorkerLaunched b) = False"
| "is_trigger_of a c (StateRecorded b st) = False"
| "is_trigger_of a c (SignalPublished b) = False"

subsection \<open>The states a program can reach\<close>

text \<open>The state a call leaves behind, whether it returned or not.\<close>

fun state_of :: "'f result \<Rightarrow> 'f system" where
  "state_of (Inl (e, s)) = s"
| "state_of (Inr s) = s"

text \<open>
  The stores that calls of the public methods, of the two notifications of the control
  handle, and the return of a blocked \<^verbatim>\<open>get()\<close> produce from freshly constructed nodes.
  The wiring helpers are sequences of \<open>set_trigger_condition\<close> and \<open>register_child\<close>.
  No order is imposed on the calls: a worker may call its notifications at any time and
  any number of times.  The state left by a call that threw, or that is blocked part of
  the way through a deep reset, is reachable too.
\<close>

inductive reachable :: "'f system \<Rightarrow> bool" where
  reachable_init: "reachable (init_system f)"
| reachable_trigger: "reachable s \<Longrightarrow> reachable (trigger s a st)"
| reachable_register_child: "reachable s \<Longrightarrow> reachable (register_child s a child)"
| reachable_set_trigger_condition:
    "reachable s \<Longrightarrow> reachable (set_trigger_condition s a c)"
| reachable_work_done: "reachable s \<Longrightarrow> reachable (state_of (work_done s a r))"
| reachable_wait_for_done: "reachable s \<Longrightarrow> reachable (state_of (wait_for_done s a))"
| reachable_future_get: "reachable s \<Longrightarrow> reachable (state_of (future_get s a))"
| reachable_reset: "reachable s \<Longrightarrow> reachable (state_of (reset n s a deep))"

subsection \<open>Concrete graphs\<close>

text \<open>
  The join of \<^verbatim>\<open>main.cpp\<close>: nodes 1 and 2 are the parents of node 3 under
  \<^verbatim>\<open>execute_if_all_finished({W1, W2}, {W3})\<close>.
\<close>

definition join_wired :: "unit system" where
  "join_wired = projr (execute_if_all_finished (init_system ()) [Some 1, Some 2] [Some 3])"

text \<open>The same graph after node 1 has been triggered and its worker has reported success.\<close>

definition join_first_parent_done :: "unit system" where
  "join_first_parent_done = projr (set_completed (trigger join_wired 1 Completed) 1)"

text \<open>
  A chain: node 0 is the parent of node 1, node 1 the parent of node 2, both edges made
  by \<^verbatim>\<open>execute_if_all_finished\<close>.  Node 1 has one parent and one child.
\<close>

definition chain_wired :: "unit system" where
  "chain_wired =
     projr (execute_if_all_finished
              (projr (execute_if_all_finished (init_system ()) [Some 0] [Some 1]))
              [Some 1] [Some 2])"

text \<open>
  The chain after a complete run: node 0 has been triggered and has reported success,
  which starts node 1; node 1 has reported success, which starts node 2; node 2 has
  reported success.
\<close>

definition chain_run :: "unit system" where
  "chain_run =
     projr (set_completed
              (projr (set_completed
                        (projr (set_completed (trigger chain_wired 0 Completed) 0)) 1)) 2)"

text \<open>A single node with no edges, triggered once: its worker is running.\<close>

definition single_running :: "unit system" where
  "single_running = trigger (init_system ()) 0 Completed"

text \<open>The same node after its worker has reported success.\<close>

definition single_completed :: "unit system" where
  "single_completed = projr (set_completed single_running 0)"

section \<open>Construction\<close>

text \<open>
  Claim C9.  A node made by the constructor from any worker function \<open>f\<close> is in state
  \<open>Created\<close>, has the \<open>OR\<close> (any) gate, a parent count of zero and no children.
\<close>

theorem new_Work_initial:
  "m_state (new_Work f) = Created
   \<and> m_trigger_condition (new_Work f) = OR
   \<and> m_parent_count (new_Work f) = 0
   \<and> m_children (new_Work f) = []"
  by (simp add: new_Work_def)

section \<open>What trigger touches\<close>

lemma trigger_noop: "m_state (heap s a) \<noteq> Created \<Longrightarrow> trigger s a st = s"
  by (simp add: trigger_def)

lemma trigger_other: "b \<noteq> a \<Longrightarrow> heap (trigger s a st) b = heap s b"
  by (simp add: trigger_def Let_def)

lemma trigger_keeps:
  "m_children (heap (trigger s a st) b) = m_children (heap s b)"
  "m_promise_done (heap (trigger s a st) b) = m_promise_done (heap s b)"
  "m_is_done (heap (trigger s a st) b) = m_is_done (heap s b)"
  "m_trigger_condition (heap (trigger s a st) b) = m_trigger_condition (heap s b)"
  by (simp_all add: trigger_def Let_def)

lemma trigger_state_kept:
  "m_state (heap s b) \<noteq> Created \<Longrightarrow> m_state (heap (trigger s a st) b) = m_state (heap s b)"
  by (cases "b = a") (simp_all add: trigger_noop trigger_other)

lemma trigger_trace:
  "trace (trigger s a st) = trace s \<or> trace (trigger s a st) = trace s @ [WorkerLaunched a]"
  by (simp add: trigger_def Let_def)

lemma trigger_count:
  "length (filter (is_trigger_of a c) (trace (trigger s b st))) =
   length (filter (is_trigger_of a c) (trace s))"
  using trigger_trace [of s b st] by auto

lemmas wiring_eval =
  execute_if_all_finished_def execute_if_any_finished_def set_trigger_condition_def
  register_child_def init_system_def new_Work_def Let_def

lemmas run_eval = trigger_def work_done_def set_completed_def set_failed_def Let_def

text \<open>
  Claim C2, as the code has it.  A \<open>trigger\<close> that reports a failed parent changes
  nothing: the parent count is not decremented, the gate is not evaluated, no worker is
  started.  The failed parent is not counted.
\<close>

theorem trigger_failed_parent_ignored: "trigger s a Failed = s"
  by (simp add: trigger_def Let_def)

text \<open>
  Claim C2 as stated fails.  Node 1 of the chain is \<open>Created\<close>, has the \<open>AND\<close> gate and
  a count of 1.  A \<open>Failed\<close> signal leaves the count at 1, where a \<open>Completed\<close> signal
  brings it to 0.
\<close>

theorem failed_parent_not_counted:
  "m_state (heap chain_wired 1) = Created
   \<and> m_trigger_condition (heap chain_wired 1) = AND
   \<and> m_parent_count (heap chain_wired 1) = 1
   \<and> m_parent_count (heap (trigger chain_wired 1 Failed) 1) = 1
   \<and> m_parent_count (heap (trigger chain_wired 1 Completed) 1) = 0"
  by (simp add: chain_wired_def wiring_eval run_eval)

section \<open>The fan-out of done\<close>

lemma fan_out_keeps:
  "m_children (heap (fan_out s a cs) b) = m_children (heap s b)"
  "m_promise_done (heap (fan_out s a cs) b) = m_promise_done (heap s b)"
  "m_is_done (heap (fan_out s a cs) b) = m_is_done (heap s b)"
  "m_trigger_condition (heap (fan_out s a cs) b) = m_trigger_condition (heap s b)"
  by (induction cs arbitrary: s; simp add: trigger_keeps Let_def split: option.split)+

lemma fan_out_state_kept:
  "m_state (heap s b) \<noteq> Created \<Longrightarrow> m_state (heap (fan_out s a cs) b) = m_state (heap s b)"
  by (induction cs arbitrary: s) (simp_all add: trigger_state_kept Let_def split: option.split)

text \<open>The loop only appends to the trace.\<close>

lemma fan_out_trace_ext: "\<exists>evs. trace (fan_out s a cs) = trace s @ evs"
proof (induction cs arbitrary: s)
  case Nil
  then show ?case by simp
next
  case (Cons child cs)
  show ?case
  proof (cases child)
    case None
    with Cons show ?thesis by simp
  next
    case (Some c)
    let ?s0 = "s\<lparr>trace := trace s @ [ChildTriggered a c (m_state (heap s a))]\<rparr>"
    let ?s1 = "trigger ?s0 c (m_state (heap s a))"
    from Cons [of ?s1] obtain evs where "trace (fan_out ?s1 a cs) = trace ?s1 @ evs" by blast
    moreover have "\<exists>pre. trace ?s1 = trace s @ pre"
      using trigger_trace [of ?s0 c "m_state (heap s a)"] by auto
    ultimately show ?thesis using Some by (auto simp: Let_def)
  qed
qed

text \<open>
  When the node's own state is terminal, every round of the loop reads that same state:
  a child's \<open>trigger\<close> cannot change it, even if the child is the node itself.
\<close>

lemma fan_out_trace:
  "m_state (heap s a) = r \<Longrightarrow> r \<noteq> Created \<Longrightarrow>
   \<exists>evs. trace (fan_out s a cs) = trace s @ evs \<and> list_all (fan_out_event a r) evs"
proof (induction cs arbitrary: s)
  case Nil
  then show ?case by simp
next
  case (Cons child cs)
  show ?case
  proof (cases child)
    case None
    with Cons show ?thesis by simp
  next
    case (Some c)
    let ?s0 = "s\<lparr>trace := trace s @ [ChildTriggered a c r]\<rparr>"
    let ?s1 = "trigger ?s0 c r"
    have st: "m_state (heap ?s1 a) = r"
      using Cons.prems by (simp add: trigger_state_kept)
    from Cons.IH [OF st Cons.prems(2)] obtain evs where
      evs: "trace (fan_out ?s1 a cs) = trace ?s1 @ evs" "list_all (fan_out_event a r) evs"
      by blast
    have "trace ?s1 = trace ?s0 \<or> trace ?s1 = trace ?s0 @ [WorkerLaunched c]"
      by (rule trigger_trace)
    then obtain pre where pre: "trace ?s1 = trace s @ pre" "list_all (fan_out_event a r) pre"
      by auto
    have "fan_out s a (child # cs) = fan_out ?s1 a cs"
      using Some Cons.prems(1) by (simp add: Let_def)
    with evs pre have "trace (fan_out s a (child # cs)) = trace s @ (pre @ evs)
        \<and> list_all (fan_out_event a r) (pre @ evs)"
      by simp
    then show ?thesis by blast
  qed
qed

lemma fan_out_count:
  "length (filter (is_trigger_of a c) (trace (fan_out s a cs))) =
   length (filter (is_trigger_of a c) (trace s)) + count_list cs (Some c)"
  by (induction cs arbitrary: s) (auto simp: Let_def trigger_count split: option.split)

lemma work_done_publishes:
  "work_done s a r = Inr s' \<Longrightarrow> m_promise_done (heap s' a)"
  by (auto simp: work_done_def Let_def fan_out_keeps split: if_splits)

lemma work_done_count:
  assumes "\<not> m_promise_done (heap s p)"
  shows "\<exists>s'. work_done s p r = Inr s'
     \<and> length (filter (is_trigger_of p c) (drop (length (trace s)) (trace s')))
       = count_list (m_children (heap s p)) (Some c)"
proof -
  let ?s1 = "s\<lparr>heap := (heap s)(p := (heap s p)\<lparr>m_state := r\<rparr>),
               trace := trace s @ [StateRecorded p r]\<rparr>"
  let ?s2 = "?s1\<lparr>heap := (heap ?s1)(p := (heap ?s1 p)\<lparr>m_promise_done := True\<rparr>),
                 trace := trace ?s1 @ [SignalPublished p]\<rparr>"
  let ?s' = "fan_out ?s2 p (m_children (heap s p))"
  have wd: "work_done s p r = Inr ?s'"
    using assms by (simp add: work_done_def Let_def)
  have cnt: "length (filter (is_trigger_of p c) (trace ?s')) =
        length (filter (is_trigger_of p c) (trace s)) + count_list (m_children (heap s p)) (Some c)"
    by (simp add: fan_out_count)
  have "\<exists>evs. trace ?s' = trace s @ evs"
    using fan_out_trace_ext [of ?s2 p "m_children (heap s p)"] by auto
  then obtain evs where evs: "trace ?s' = trace s @ evs" by blast
  with cnt have "length (filter (is_trigger_of p c) evs)
      = count_list (m_children (heap s p)) (Some c)"
    by simp
  with evs wd show ?thesis by simp
qed

text \<open>
  Claim C6.  When \<open>done\<close> is called with a terminal state and returns, what it adds to
  the trace starts with the state being recorded and the signal being published, and
  everything after these two is a trigger call on a child, carrying the recorded state, or
  a worker started by such a call; at the end the node has the recorded state and its
  signal is published.  When \<open>done\<close> throws instead, it has recorded the state and
  triggered no child.
\<close>

theorem fan_out_after_state_and_signal:
  assumes "result = Completed \<or> result = Failed"
  shows "(work_done s a result = Inr s' \<longrightarrow>
            (\<exists>evs. trace s' = trace s @ [StateRecorded a result, SignalPublished a] @ evs
                   \<and> list_all (fan_out_event a result) evs)
            \<and> m_state (heap s' a) = result \<and> m_promise_done (heap s' a))
       \<and> (work_done s a result = Inl (e, s') \<longrightarrow>
            trace s' = trace s @ [StateRecorded a result])"
proof -
  let ?s1 = "s\<lparr>heap := (heap s)(a := (heap s a)\<lparr>m_state := result\<rparr>),
               trace := trace s @ [StateRecorded a result]\<rparr>"
  let ?s2 = "?s1\<lparr>heap := (heap ?s1)(a := (heap ?s1 a)\<lparr>m_promise_done := True\<rparr>),
                 trace := trace ?s1 @ [SignalPublished a]\<rparr>"
  have nc: "result \<noteq> Created" using assms by auto
  have st2: "m_state (heap ?s2 a) = result" by simp
  have throws: "work_done s a result = Inl (e, s') \<longrightarrow>
      trace s' = trace s @ [StateRecorded a result]"
    by (auto simp: work_done_def Let_def split: if_splits)
  have returns: "(\<exists>evs. trace s' = trace s @ [StateRecorded a result, SignalPublished a] @ evs
                   \<and> list_all (fan_out_event a result) evs)
            \<and> m_state (heap s' a) = result \<and> m_promise_done (heap s' a)"
    if r: "work_done s a result = Inr s'"
  proof -
    from r have s': "s' = fan_out ?s2 a (m_children (heap ?s2 a))"
      by (auto simp: work_done_def Let_def split: if_splits)
    from fan_out_trace [OF st2 nc, of "m_children (heap ?s2 a)"] obtain evs where
      "trace s' = trace ?s2 @ evs" "list_all (fan_out_event a result) evs"
      unfolding s' by blast
    then have "trace s' = trace s @ [StateRecorded a result, SignalPublished a] @ evs
        \<and> list_all (fan_out_event a result) evs"
      by simp
    moreover have "m_state (heap s' a) = result"
      unfolding s' using nc by (simp add: fan_out_state_kept)
    moreover have "m_promise_done (heap s' a)"
      using r by (rule work_done_publishes)
    ultimately show ?thesis by blast
  qed
  from throws returns show ?thesis by blast
qed

theorem fan_out_after_state_and_signal_witness:
  "work_done (trigger join_wired 1 Completed) 1 Completed = Inr join_first_parent_done
   \<and> (\<exists>evs. trace join_first_parent_done =
          trace (trigger join_wired 1 Completed)
            @ [StateRecorded 1 Completed, SignalPublished 1] @ evs
          \<and> list_all (fan_out_event 1 Completed) evs)
   \<and> m_state (heap join_first_parent_done 1) = Completed
   \<and> m_promise_done (heap join_first_parent_done 1)
   \<and> trace join_first_parent_done =
        [WorkerLaunched 1, StateRecorded 1 Completed, SignalPublished 1,
         ChildTriggered 1 3 Completed, WorkerLaunched 3]"
proof -
  have t: "Completed = Completed \<or> Completed = Failed" by simp
  have wd: "work_done (trigger join_wired 1 Completed) 1 Completed = Inr join_first_parent_done"
    by (simp add: join_first_parent_done_def join_wired_def wiring_eval run_eval)
  have tr: "trace join_first_parent_done =
        [WorkerLaunched 1, StateRecorded 1 Completed, SignalPublished 1,
         ChildTriggered 1 3 Completed, WorkerLaunched 3]"
    by (simp add: join_first_parent_done_def join_wired_def wiring_eval run_eval)
  from fan_out_after_state_and_signal
    [OF t, of "trigger join_wired 1 Completed" 1 join_first_parent_done]
    wd tr show ?thesis by simp
qed

text \<open>
  Claim C4, as the code has it.  After a call of \<open>done\<close> that returned, a second call on
  the same node, with either result, is not a no-op: it writes its own result into
  \<open>m_state\<close> and then throws \<open>PromiseAlreadySatisfied\<close> before the fan-out.  Nothing else
  changes: the promise stays satisfied, the children list, the counters and every other
  node are as they were, and the only new event is the state being recorded.
\<close>

theorem second_finalize_throws:
  assumes "work_done s a r1 = Inr s1"
  shows "work_done s1 a r2 =
           Inl (PromiseAlreadySatisfied,
                s1\<lparr>heap := (heap s1)(a := (heap s1 a)\<lparr>m_state := r2\<rparr>),
                   trace := trace s1 @ [StateRecorded a r2]\<rparr>)"
proof -
  from assms have "m_promise_done (heap s1 a)" by (rule work_done_publishes)
  then show ?thesis by (simp add: work_done_def Let_def)
qed

theorem second_finalize_throws_witness:
  "work_done single_running 0 Completed = Inr single_completed
   \<and> work_done single_completed 0 Failed =
       Inl (PromiseAlreadySatisfied,
            single_completed
              \<lparr>heap := (heap single_completed)
                         (0 := (heap single_completed 0)\<lparr>m_state := Failed\<rparr>),
                trace := trace single_completed @ [StateRecorded 0 Failed]\<rparr>)"
proof -
  have wd: "work_done single_running 0 Completed = Inr single_completed"
    by (simp add: single_completed_def single_running_def wiring_eval run_eval)
  from wd second_finalize_throws [OF wd, of Failed] show ?thesis by simp
qed

text \<open>
  Claim C4 as stated fails.  The single node is \<open>Running\<close>; \<open>set_completed\<close> returns and
  leaves it \<open>Completed\<close>; \<open>set_failed\<close> after it does not return normally and leaves the
  node \<open>Failed\<close>: the second call has changed the terminal state.
\<close>

theorem second_notification_changes_state:
  "m_state (heap single_running 0) = Running
   \<and> \<not> isl (set_completed single_running 0)
   \<and> m_state (heap (projr (set_completed single_running 0)) 0) = Completed
   \<and> isl (set_failed (projr (set_completed single_running 0)) 0)
   \<and> fst (projl (set_failed (projr (set_completed single_running 0)) 0))
       = PromiseAlreadySatisfied
   \<and> m_state (heap (snd (projl (set_failed (projr (set_completed single_running 0)) 0))) 0)
       = Failed"
  by (simp add: single_running_def wiring_eval run_eval)

section \<open>Wiring\<close>

lemma set_trigger_condition_gate:
  "m_trigger_condition (heap (set_trigger_condition s a c) b) =
     (if b = a then c else m_trigger_condition (heap s b))"
  by (simp add: set_trigger_condition_def)

lemma register_child_gate:
  "m_trigger_condition (heap (register_child s a child) b) = m_trigger_condition (heap s b)"
  by (simp add: register_child_def Let_def)

text \<open>A wiring loop that sets the gate \<open>cnd\<close> leaves every gate that is \<open>cnd\<close> as it is.\<close>

lemma wire_children_keeps_gate:
  "wire_children cnd s parent cs = Inr s' \<Longrightarrow> m_trigger_condition (heap s b) = cnd \<Longrightarrow>
   m_trigger_condition (heap s' b) = cnd"
proof (induction cs arbitrary: s)
  case Nil
  then show ?case by simp
next
  case (Cons child cs)
  from Cons.prems(1) obtain ch p where ch: "child = Some ch" and p: "parent = Some p"
    by (auto simp: Let_def split: option.splits)
  let ?s1 = "register_child (set_trigger_condition s ch cnd) p child"
  from Cons.prems(1) ch p have "wire_children cnd ?s1 parent cs = Inr s'"
    by (simp add: Let_def)
  moreover have "m_trigger_condition (heap ?s1 b) = cnd"
    using Cons.prems(2) by (simp add: register_child_gate set_trigger_condition_gate)
  ultimately show ?case by (rule Cons.IH)
qed

lemma wire_children_sets_gate:
  "wire_children cnd s parent cs = Inr s' \<Longrightarrow> Some c \<in> set cs \<Longrightarrow>
   m_trigger_condition (heap s' c) = cnd"
proof (induction cs arbitrary: s)
  case Nil
  then show ?case by simp
next
  case (Cons child cs)
  from Cons.prems(1) obtain ch p where ch: "child = Some ch" and p: "parent = Some p"
    by (auto simp: Let_def split: option.splits)
  let ?s1 = "register_child (set_trigger_condition s ch cnd) p child"
  from Cons.prems(1) ch p have rest: "wire_children cnd ?s1 parent cs = Inr s'"
    by (simp add: Let_def)
  show ?case
  proof (cases "ch = c")
    case True
    have "m_trigger_condition (heap ?s1 c) = cnd"
      using True by (simp add: register_child_gate set_trigger_condition_gate)
    with rest show ?thesis by (rule wire_children_keeps_gate)
  next
    case False
    with Cons.prems(2) ch have "Some c \<in> set cs" by simp
    with rest show ?thesis by (rule Cons.IH)
  qed
qed

lemma wire_parents_keeps_gate:
  "wire_parents cnd s ps cs = Inr s' \<Longrightarrow> m_trigger_condition (heap s b) = cnd \<Longrightarrow>
   m_trigger_condition (heap s' b) = cnd"
proof (induction ps arbitrary: s)
  case Nil
  then show ?case by simp
next
  case (Cons p ps)
  from Cons.prems(1) obtain s1 where s1: "wire_children cnd s p cs = Inr s1"
    and rest: "wire_parents cnd s1 ps cs = Inr s'"
    by (auto split: sum.splits)
  from s1 Cons.prems(2) have "m_trigger_condition (heap s1 b) = cnd"
    by (rule wire_children_keeps_gate)
  with rest show ?case by (rule Cons.IH)
qed

lemma wire_parents_sets_gate:
  assumes "wire_parents cnd s ps cs = Inr s'" and "ps \<noteq> []" and "Some c \<in> set cs"
  shows "m_trigger_condition (heap s' c) = cnd"
proof -
  from assms(2) obtain p ps' where ps: "ps = p # ps'" by (cases ps) auto
  with assms(1) obtain s1 where s1: "wire_children cnd s p cs = Inr s1"
    and rest: "wire_parents cnd s1 ps' cs = Inr s'"
    by (auto split: sum.splits)
  from s1 assms(3) have "m_trigger_condition (heap s1 c) = cnd"
    by (rule wire_children_sets_gate)
  with rest show ?thesis by (rule wire_parents_keeps_gate)
qed

text \<open>
  Claim C8.  A node is wired as a child by a helper call when the call has at least one
  parent, names the node among its children, and returns.  If such a call of
  \<open>execute_if_any_finished\<close> is followed by such a call of \<open>execute_if_all_finished\<close>,
  the node's gate is \<open>OR\<close> in between and \<open>AND\<close> at the end; in the other order it is
  \<open>AND\<close> in between and \<open>OR\<close> at the end.
\<close>

theorem last_wiring_call_decides_gate:
  "(execute_if_any_finished s ps1 cs1 = Inr s1 \<and> ps1 \<noteq> [] \<and> Some c \<in> set cs1
      \<and> execute_if_all_finished s1 ps2 cs2 = Inr s2 \<and> ps2 \<noteq> [] \<and> Some c \<in> set cs2
    \<longrightarrow> m_trigger_condition (heap s1 c) = OR \<and> m_trigger_condition (heap s2 c) = AND)
   \<and> (execute_if_all_finished s ps1 cs1 = Inr s1 \<and> ps1 \<noteq> [] \<and> Some c \<in> set cs1
      \<and> execute_if_any_finished s1 ps2 cs2 = Inr s2 \<and> ps2 \<noteq> [] \<and> Some c \<in> set cs2
    \<longrightarrow> m_trigger_condition (heap s1 c) = AND \<and> m_trigger_condition (heap s2 c) = OR)"
  unfolding execute_if_any_finished_def execute_if_all_finished_def
  by (blast intro: wire_parents_sets_gate)

theorem last_wiring_call_decides_gate_witness:
  "m_trigger_condition
     (heap (projr (execute_if_any_finished (init_system ()) [Some 0] [Some 2])) 2) = OR
   \<and> m_trigger_condition
     (heap (projr (execute_if_all_finished
        (projr (execute_if_any_finished (init_system ()) [Some 0] [Some 2]))
        [Some 1] [Some 2])) 2) = AND
   \<and> m_trigger_condition
     (heap (projr (execute_if_all_finished (init_system ()) [Some 0] [Some 2])) 2) = AND
   \<and> m_trigger_condition
     (heap (projr (execute_if_any_finished
        (projr (execute_if_all_finished (init_system ()) [Some 0] [Some 2]))
        [Some 1] [Some 2])) 2) = OR"
proof -
  let ?any = "execute_if_any_finished (init_system ()) [Some 0] [Some 2]"
  let ?all = "execute_if_all_finished (init_system ()) [Some 0] [Some 2]"
  let ?any_all = "execute_if_all_finished (projr ?any) [Some 1] [Some 2]"
  let ?all_any = "execute_if_any_finished (projr ?all) [Some 1] [Some 2]"
  have 1: "?any = Inr (projr ?any)" by (simp add: wiring_eval)
  have 2: "?any_all = Inr (projr ?any_all)" by (simp add: wiring_eval)
  have 3: "?all = Inr (projr ?all)" by (simp add: wiring_eval)
  have 4: "?all_any = Inr (projr ?all_any)" by (simp add: wiring_eval)
  from 1 2 3 4
    last_wiring_call_decides_gate
      [where s = "init_system ()" and ?ps1.0 = "[Some 0]" and ?cs1.0 = "[Some 2]"
         and ?s1.0 = "projr ?any" and c = 2 and ?ps2.0 = "[Some 1]" and ?cs2.0 = "[Some 2]"
         and ?s2.0 = "projr ?any_all"]
    last_wiring_call_decides_gate
      [where s = "init_system ()" and ?ps1.0 = "[Some 0]" and ?cs1.0 = "[Some 2]"
         and ?s1.0 = "projr ?all" and c = 2 and ?ps2.0 = "[Some 1]" and ?cs2.0 = "[Some 2]"
         and ?s2.0 = "projr ?all_any"]
  show ?thesis by simp
qed


section \<open>Registering a child\<close>

lemma register_child_at:
  "m_children (heap (register_child s p child) p) = m_children (heap s p) @ [child]"
  "m_parent_count (heap (register_child s p child) p) = m_parent_count (heap s p) + 1"
  by (simp_all add: register_child_def Let_def)

lemma register_child_other: "b \<noteq> p \<Longrightarrow> heap (register_child s p child) b = heap s b"
  by (simp add: register_child_def Let_def)

lemma register_child_keeps:
  "m_promise_done (heap (register_child s p child) b) = m_promise_done (heap s b)"
  "trace (register_child s p child) = trace s"
  by (simp_all add: register_child_def Let_def)

lemma register_child_funpow_children:
  "m_children (heap (((\<lambda>t. register_child t p child) ^^ k) s) p)
     = m_children (heap s p) @ replicate k child"
  by (induction k) (simp_all add: register_child_at replicate_append_same)

lemma register_child_funpow_count:
  "m_parent_count (heap (((\<lambda>t. register_child t p child) ^^ k) s) p)
     = m_parent_count (heap s p) + of_nat k"
  by (induction k) (simp_all add: register_child_at)

lemma register_child_funpow_other:
  "b \<noteq> p \<Longrightarrow> heap (((\<lambda>t. register_child t p child) ^^ k) s) b = heap s b"
  by (induction k) (simp_all add: register_child_other)

lemma register_child_funpow_keeps:
  "m_promise_done (heap (((\<lambda>t. register_child t p child) ^^ k) s) b)
     = m_promise_done (heap s b)"
  "trace (((\<lambda>t. register_child t p child) ^^ k) s) = trace s"
  by (induction k; simp add: register_child_keeps)+

lemma count_list_replicate: "count_list (replicate k x) x = k"
  by (induction k) simp_all

text \<open>A helper call that names the pair (parent \<open>p\<close>, child \<open>c\<close>) \<open>k\<close> times.\<close>

lemma wire_same_pair:
  "\<exists>s'. wire_parents cnd s (replicate k (Some p)) [Some c] = Inr s'
        \<and> m_children (heap s' p) = m_children (heap s p) @ replicate k (Some c)
        \<and> m_parent_count (heap s' p) = m_parent_count (heap s p) + of_nat k"
proof (induction k arbitrary: s)
  case 0
  then show ?case by simp
next
  case (Suc k)
  let ?g = "register_child (set_trigger_condition s c cnd) p (Some c)"
  from Suc [of ?g] obtain s' where
    s': "wire_parents cnd ?g (replicate k (Some p)) [Some c] = Inr s'"
      "m_children (heap s' p) = m_children (heap ?g p) @ replicate k (Some c)"
      "m_parent_count (heap s' p) = m_parent_count (heap ?g p) + of_nat k"
    by blast
  have g: "m_children (heap ?g p) = m_children (heap s p) @ [Some c]"
    "m_parent_count (heap ?g p) = m_parent_count (heap s p) + 1"
    by (simp_all add: register_child_def set_trigger_condition_def Let_def)
  have "wire_parents cnd s (replicate (Suc k) (Some p)) [Some c] = Inr s'"
    using s'(1) by (simp add: Let_def)
  moreover have "m_children (heap s' p) = m_children (heap s p) @ replicate (Suc k) (Some c)"
    using s'(2) g(1) by simp
  moreover have "m_parent_count (heap s' p) = m_parent_count (heap s p) + of_nat (Suc k)"
    using s'(3) g(2) by simp
  ultimately show ?case by blast
qed

text \<open>
  Claim C10.  Registering the child \<open>c\<close> with the parent \<open>p\<close> \<open>k\<close> times appends \<open>k\<close>
  entries for \<open>c\<close> to the children of \<open>p\<close> and adds \<open>k\<close> (in 64-bit arithmetic) to the
  counter of \<open>p\<close> itself; the counter of a child other than \<open>p\<close> is untouched.  If the
  promise of \<open>p\<close> is not yet satisfied, \<open>done\<close> on \<open>p\<close> returns, and the trigger calls it
  makes on \<open>c\<close> are as many as the entries for \<open>c\<close>: those there before, plus \<open>k\<close>.  A
  wiring helper given the parent \<open>k\<close> times and the child once registers it \<open>k\<close> times
  in the same way.
\<close>

theorem register_child_k_times:
  "m_children (heap (((\<lambda>t. register_child t p (Some c)) ^^ k) s) p)
     = m_children (heap s p) @ replicate k (Some c)
   \<and> m_parent_count (heap (((\<lambda>t. register_child t p (Some c)) ^^ k) s) p)
     = m_parent_count (heap s p) + of_nat k
   \<and> (c \<noteq> p \<longrightarrow> m_parent_count (heap (((\<lambda>t. register_child t p (Some c)) ^^ k) s) c)
                  = m_parent_count (heap s c))
   \<and> (\<not> m_promise_done (heap s p) \<longrightarrow>
        (\<exists>s'. work_done (((\<lambda>t. register_child t p (Some c)) ^^ k) s) p r = Inr s'
             \<and> length (filter (is_trigger_of p c) (drop (length (trace s)) (trace s')))
               = count_list (m_children (heap s p)) (Some c) + k))
   \<and> (\<exists>s'. execute_if_all_finished s (replicate k (Some p)) [Some c] = Inr s'
          \<and> m_children (heap s' p) = m_children (heap s p) @ replicate k (Some c)
          \<and> m_parent_count (heap s' p) = m_parent_count (heap s p) + of_nat k)
   \<and> (\<exists>s'. execute_if_any_finished s (replicate k (Some p)) [Some c] = Inr s'
          \<and> m_children (heap s' p) = m_children (heap s p) @ replicate k (Some c)
          \<and> m_parent_count (heap s' p) = m_parent_count (heap s p) + of_nat k)"
proof -
  let ?sk = "((\<lambda>t. register_child t p (Some c)) ^^ k) s"
  have 1: "m_children (heap ?sk p) = m_children (heap s p) @ replicate k (Some c)"
    by (rule register_child_funpow_children)
  have 2: "m_parent_count (heap ?sk p) = m_parent_count (heap s p) + of_nat k"
    by (rule register_child_funpow_count)
  have 3: "c \<noteq> p \<longrightarrow> m_parent_count (heap ?sk c) = m_parent_count (heap s c)"
    by (simp add: register_child_funpow_other)
  have 4: "\<exists>s'. work_done ?sk p r = Inr s'
             \<and> length (filter (is_trigger_of p c) (drop (length (trace s)) (trace s')))
               = count_list (m_children (heap s p)) (Some c) + k"
    if np: "\<not> m_promise_done (heap s p)"
  proof -
    from np have "\<not> m_promise_done (heap ?sk p)"
      by (simp add: register_child_funpow_keeps)
    from work_done_count [OF this, of r c] obtain s' where
      "work_done ?sk p r = Inr s'"
      "length (filter (is_trigger_of p c) (drop (length (trace ?sk)) (trace s')))
         = count_list (m_children (heap ?sk p)) (Some c)"
      by blast
    then show ?thesis
      by (auto simp: register_child_funpow_keeps 1 count_list_replicate)
  qed
  have 5: "\<exists>s'. execute_if_all_finished s (replicate k (Some p)) [Some c] = Inr s'
          \<and> m_children (heap s' p) = m_children (heap s p) @ replicate k (Some c)
          \<and> m_parent_count (heap s' p) = m_parent_count (heap s p) + of_nat k"
    unfolding execute_if_all_finished_def by (rule wire_same_pair)
  have 6: "\<exists>s'. execute_if_any_finished s (replicate k (Some p)) [Some c] = Inr s'
          \<and> m_children (heap s' p) = m_children (heap s p) @ replicate k (Some c)
          \<and> m_parent_count (heap s' p) = m_parent_count (heap s p) + of_nat k"
    unfolding execute_if_any_finished_def by (rule wire_same_pair)
  from 1 2 3 4 5 6 show ?thesis by blast
qed

theorem register_child_k_times_witness:
  "m_children (heap (((\<lambda>t. register_child t 0 (Some 1)) ^^ 2) (init_system ())) 0)
     = [Some 1, Some 1]
   \<and> m_parent_count (heap (((\<lambda>t. register_child t 0 (Some 1)) ^^ 2) (init_system ())) 0) = 2
   \<and> m_parent_count (heap (((\<lambda>t. register_child t 0 (Some 1)) ^^ 2) (init_system ())) 1) = 0
   \<and> (\<exists>s'. work_done (((\<lambda>t. register_child t 0 (Some 1)) ^^ 2) (init_system ())) 0 Completed
             = Inr s'
          \<and> length (filter (is_trigger_of 0 1) (trace s')) = 2)
   \<and> (\<exists>s'. execute_if_all_finished (init_system ()) [Some 0, Some 0] [Some 1] = Inr s'
          \<and> m_children (heap s' 0) = [Some 1, Some 1]
          \<and> m_parent_count (heap s' 0) = 2)"
proof -
  have i: "m_children (heap (init_system ()) 0) = []"
    "m_parent_count (heap (init_system ()) 0) = 0"
    "m_parent_count (heap (init_system ()) 1) = 0"
    "\<not> m_promise_done (heap (init_system ()) 0)"
    "trace (init_system ()) = []"
    by (simp_all add: init_system_def new_Work_def)
  from register_child_k_times
    [where p = 0 and c = 1 and k = 2 and s = "init_system ()" and r = Completed] i
  show ?thesis by (simp add: numeral_2_eq_2)
qed

text \<open>
  Claim C1 fails on the join of \<^verbatim>\<open>main.cpp\<close>.  After
  \<^verbatim>\<open>execute_if_all_finished({W1, W2}, {W3})\<close> the child 3 has the \<open>AND\<close> gate and a count
  of 0: each registration has incremented the count of the parent it was made on, so 1
  and 2 have a count of 1.  When parent 1 alone is triggered and reports success, with
  parent 2 still \<open>Created\<close>, the child 3 is \<open>Running\<close>.
\<close>

theorem all_gate_opens_after_first_parent:
  "execute_if_all_finished (init_system ()) [Some 1, Some 2] [Some 3] = Inr join_wired
   \<and> m_trigger_condition (heap join_wired 3) = AND
   \<and> m_parent_count (heap join_wired 3) = 0
   \<and> m_parent_count (heap join_wired 1) = 1
   \<and> m_parent_count (heap join_wired 2) = 1
   \<and> set_completed (trigger join_wired 1 Completed) 1 = Inr join_first_parent_done
   \<and> m_state (heap join_first_parent_done 2) = Created
   \<and> m_state (heap join_first_parent_done 3) = Running"
  by (simp add: join_first_parent_done_def join_wired_def wiring_eval run_eval)

section \<open>wait\_for\_done and reset\<close>

lemma wait_for_done_result: "wait_for_done s a = Inr s' \<Longrightarrow> s' = s"
  by (auto simp: wait_for_done_def future_get_def split: if_splits)

text \<open>
  One call of \<open>reset\<close> that returns: the node is rewritten, and a deep reset goes on with
  the children.  The wait at its start has changed nothing when it returns.
\<close>

lemma reset_step:
  assumes "reset (Suc n) s a deep = Inr s'"
  shows "if deep
         then reset_children n
                (s\<lparr>heap := (heap s)(a := (heap s a)\<lparr>m_state := Created,
                     m_promise_done := False, m_is_done := True,
                     m_parent_done_count := m_parent_count (heap s a)\<rparr>)\<rparr>)
                (m_children (heap s a)) deep = Inr s'
         else s' = s\<lparr>heap := (heap s)(a := (heap s a)\<lparr>m_state := Created,
                     m_promise_done := False, m_is_done := True,
                     m_parent_done_count := m_parent_count (heap s a)\<rparr>)\<rparr>"
proof -
  from assms obtain s0 where
    s0: "(if m_state (heap s a) = Running then wait_for_done s a else Inr s) = Inr s0"
    by (auto split: sum.splits)
  then have "s0 = s" by (auto split: if_splits dest: wait_for_done_result)
  with assms s0 show ?thesis by (auto simp: Let_def split: if_splits)
qed

lemma wait_for_done_state: "state_of (wait_for_done s a) = s"
  by (simp add: wait_for_done_def future_get_def)

text \<open>
  A property of single nodes that the rewriting of \<open>reset\<close> establishes holds, in the
  state a reset of any depth leaves behind, of every node of which it held before.
\<close>

lemma reset_preserves:
  assumes upd: "\<And>w. P (w\<lparr>m_state := Created, m_promise_done := False, m_is_done := True,
                           m_parent_done_count := m_parent_count w\<rparr>)"
  shows "P (heap s b) \<longrightarrow> P (heap (state_of (reset n s a deep)) b)"
    and "P (heap s b) \<longrightarrow> P (heap (state_of (reset_children n s cs deep)) b)"
proof (induction n s a deep and n s cs deep rule: reset_reset_children.induct)
  case (1 s a deep)
  then show ?case by simp
next
  case (2 n s a deep)
  let ?s1 = "s\<lparr>heap := (heap s)(a := (heap s a)\<lparr>m_state := Created, m_promise_done := False,
                m_is_done := True, m_parent_done_count := m_parent_count (heap s a)\<rparr>)\<rparr>"
  let ?w = "if m_state (heap s a) = Running then wait_for_done s a else Inr s"
  show ?case
  proof
    assume p: "P (heap s b)"
    show "P (heap (state_of (reset (Suc n) s a deep)) b)"
    proof (cases ?w)
      case (Inl x)
      then have "state_of ?w = snd x" by (cases x) simp
      moreover have "state_of ?w = s" by (simp add: wait_for_done_state)
      ultimately have "snd x = s" by simp
      moreover from Inl have "reset (Suc n) s a deep = Inl x" by simp
      ultimately show ?thesis using p by (cases x) simp
    next
      case (Inr s0)
      then have "state_of ?w = s0" by simp
      moreover have "state_of ?w = s" by (simp add: wait_for_done_state)
      ultimately have s0s: "s0 = s" by simp
      have p1: "P (heap ?s1 b)" using p upd by simp
      show ?thesis
      proof (cases deep)
        case True
        with Inr s0s have "reset (Suc n) s a deep
            = reset_children n ?s1 (m_children (heap s a)) deep"
          by (simp add: Let_def)
        with 2 [OF Inr refl refl True] p1 s0s show ?thesis by simp
      next
        case False
        with Inr s0s have "reset (Suc n) s a deep = Inr ?s1" by (simp add: Let_def)
        with p1 show ?thesis by simp
      qed
    qed
  qed
next
  case (3 n s deep)
  then show ?case by simp
next
  case (4 n s child cs deep)
  show ?case
  proof (cases child)
    case None
    with 4(1) show ?thesis by simp
  next
    case (Some c)
    show ?thesis
    proof
      assume p: "P (heap s b)"
      with 4(2) [OF Some] have p1: "P (heap (state_of (reset n s c deep)) b)" by simp
      show "P (heap (state_of (reset_children n s (child # cs) deep)) b)"
      proof (cases "reset n s c deep")
        case (Inl x)
        with Some have "reset_children n s (child # cs) deep = Inl x" by simp
        with p1 Inl show ?thesis by simp
      next
        case (Inr s1)
        with Some have "reset_children n s (child # cs) deep = reset_children n s1 cs deep"
          by simp
        with 4(3) [OF Some Inr] p1 Inr show ?thesis by simp
      qed
    qed
  qed
qed

lemma reset_signal:
  "m_is_done (heap s b) \<or> m_promise_done (heap s b) \<Longrightarrow>
   m_is_done (heap (state_of (reset n s a deep)) b)
   \<or> m_promise_done (heap (state_of (reset n s a deep)) b)"
  using reset_preserves(1) [of "\<lambda>w. m_is_done w \<or> m_promise_done w" s b n a deep] by simp

lemma reset_children_created:
  "reset_children n s cs deep = Inr s' \<Longrightarrow> m_state (heap s b) = Created \<Longrightarrow>
   m_state (heap s' b) = Created"
  using reset_preserves(2) [of "\<lambda>w. m_state w = Created" s b n cs deep] by simp

lemma reset_created:
  assumes "reset n s a deep = Inr s'"
  shows "m_state (heap s' a) = Created"
proof (cases n)
  case 0
  with assms show ?thesis by simp
next
  case (Suc m)
  let ?s1 = "s\<lparr>heap := (heap s)(a := (heap s a)\<lparr>m_state := Created, m_promise_done := False,
                m_is_done := True, m_parent_done_count := m_parent_count (heap s a)\<rparr>)\<rparr>"
  have c1: "m_state (heap ?s1 a) = Created" by simp
  show ?thesis
  proof (cases deep)
    case True
    with reset_step [of m s a deep s'] assms Suc
    have "reset_children m ?s1 (m_children (heap s a)) deep = Inr s'" by simp
    from reset_children_created [OF this c1] show ?thesis .
  next
    case False
    with reset_step [of m s a deep s'] assms Suc have "s' = ?s1" by simp
    then show ?thesis by simp
  qed
qed

text \<open>
  In every reachable state, a future that is no longer valid belongs to a promise that is
  satisfied: only \<^verbatim>\<open>get()\<close> invalidates the future, it returns only once the value is
  there, and only \<open>reset\<close> takes the value away, together with a new valid future.
\<close>

lemma reachable_signal:
  "reachable s \<Longrightarrow> m_is_done (heap s b) \<or> m_promise_done (heap s b)"
proof (induction arbitrary: b rule: reachable.induct)
  case (reachable_init f)
  then show ?case by (simp add: init_system_def new_Work_def)
next
  case (reachable_trigger s a st)
  then show ?case by (simp add: trigger_keeps)
next
  case (reachable_register_child s a child)
  then show ?case by (simp add: register_child_def Let_def)
next
  case (reachable_set_trigger_condition s a c)
  then show ?case by (simp add: set_trigger_condition_def)
next
  case (reachable_work_done s a r)
  have "m_is_done (heap (state_of (work_done s a r)) b) = m_is_done (heap s b)"
    "m_promise_done (heap s b) \<longrightarrow> m_promise_done (heap (state_of (work_done s a r)) b)"
    by (simp_all add: work_done_def Let_def fan_out_keeps)
  with reachable_work_done.IH [of b] show ?case by blast
next
  case (reachable_wait_for_done s a)
  then show ?case by (simp add: wait_for_done_state)
next
  case (reachable_future_get s a)
  from reachable_future_get.IH [of b] show ?case
    by (auto simp: future_get_def)
next
  case (reachable_reset s n a deep)
  from reachable_reset.IH [of b] show ?case by (rule reset_signal)
qed

text \<open>
  Claim C7.  In every reachable state: if the node's signal is published,
  \<open>wait_for_done\<close> returns at once and changes nothing, so any number of calls return;
  if it is not published, \<open>wait_for_done\<close> does not return; after a \<open>done\<close> on the node
  that returned, \<open>wait_for_done\<close> returns; and a call that was blocked returns from
  \<^verbatim>\<open>get()\<close> once the signal is published, after which further calls return at once.
\<close>

theorem wait_for_done_correct:
  assumes "reachable s"
  shows "(m_promise_done (heap s a) \<longrightarrow> wait_for_done s a = Inr s)
       \<and> (\<not> m_promise_done (heap s a) \<longrightarrow> wait_for_done s a = Inl (Blocked, s))
       \<and> (\<forall>r s'. work_done s a r = Inr s' \<longrightarrow> wait_for_done s' a = Inr s')
       \<and> (m_promise_done (heap s a) \<longrightarrow>
            (\<exists>s'. future_get s a = Inr s' \<and> wait_for_done s' a = Inr s'))"
proof -
  have v: "m_is_done (heap s a) \<or> m_promise_done (heap s a)"
    using assms by (rule reachable_signal)
  have 1: "m_promise_done (heap s a) \<longrightarrow> wait_for_done s a = Inr s"
    by (simp add: wait_for_done_def)
  have 2: "\<not> m_promise_done (heap s a) \<longrightarrow> wait_for_done s a = Inl (Blocked, s)"
    using v by (auto simp: wait_for_done_def future_get_def)
  have 3: "\<forall>r s'. work_done s a r = Inr s' \<longrightarrow> wait_for_done s' a = Inr s'"
    by (auto dest: work_done_publishes simp: wait_for_done_def)
  have 4: "m_promise_done (heap s a) \<longrightarrow>
            (\<exists>s'. future_get s a = Inr s' \<and> wait_for_done s' a = Inr s')"
    by (simp add: future_get_def wait_for_done_def)
  from 1 2 3 4 show ?thesis by blast
qed

theorem wait_for_done_correct_witness:
  "reachable single_running
   \<and> wait_for_done single_running 0 = Inl (Blocked, single_running)
   \<and> reachable single_completed
   \<and> wait_for_done single_completed 0 = Inr single_completed
   \<and> (\<exists>s'. future_get single_completed 0 = Inr s' \<and> wait_for_done s' 0 = Inr s')"
proof -
  have r1: "reachable single_running"
    unfolding single_running_def by (intro reachable_trigger reachable_init)
  have wd: "work_done single_running 0 Completed = Inr single_completed"
    by (simp add: single_completed_def single_running_def wiring_eval run_eval)
  have r2: "reachable single_completed"
    using reachable_work_done [OF r1, of 0 Completed] wd by simp
  have n1: "\<not> m_promise_done (heap single_running 0)"
    by (simp add: single_running_def wiring_eval run_eval)
  have p2: "m_promise_done (heap single_completed 0)" using wd by (rule work_done_publishes)
  from r1 r2 n1 p2 wd
    wait_for_done_correct [OF r1, of 0] wait_for_done_correct [OF r2, of 0]
  show ?thesis by simp
qed

text \<open>
  Claim C5.  On a node whose state is \<open>Running\<close>, \<open>Completed\<close> or \<open>Failed\<close>, \<open>trigger\<close>
  with any parent state returns the system as it was: state, parent count, gate and
  children of every node are unchanged and the trace gains no \<open>WorkerLaunched\<close>.  A
  \<open>reset\<close> of the node that returns leaves it \<open>Created\<close>.
\<close>

theorem trigger_noop_unless_created:
  assumes "m_state (heap s a) = Running \<or> m_state (heap s a) = Completed
           \<or> m_state (heap s a) = Failed"
  shows "trigger s a parent_state = s
       \<and> (reset n s a deep = Inr s' \<longrightarrow> m_state (heap s' a) = Created)"
proof -
  from assms have "m_state (heap s a) \<noteq> Created" by auto
  then have "trigger s a parent_state = s" by (rule trigger_noop)
  then show ?thesis by (auto dest: reset_created)
qed

theorem trigger_noop_unless_created_witness:
  "m_state (heap single_completed 0) = Completed
   \<and> trigger single_completed 0 Completed = single_completed
   \<and> reset (Suc 0) single_completed 0 False
       = Inr (projr (reset (Suc 0) single_completed 0 False))
   \<and> m_state (heap (projr (reset (Suc 0) single_completed 0 False)) 0) = Created"
proof -
  have c: "m_state (heap single_completed 0) = Completed"
    by (simp add: single_completed_def single_running_def wiring_eval run_eval)
  then have h: "m_state (heap single_completed 0) = Running
      \<or> m_state (heap single_completed 0) = Completed
      \<or> m_state (heap single_completed 0) = Failed"
    by simp
  have r: "reset (Suc 0) single_completed 0 False
       = Inr (projr (reset (Suc 0) single_completed 0 False))"
    using c by (simp add: Let_def)
  from c r
    trigger_noop_unless_created
      [OF h, of Completed "Suc 0" False "projr (reset (Suc 0) single_completed 0 False)"]
  show ?thesis by simp
qed

text \<open>
  Claim C3 fails on node 1 of the chain, which has one parent and one child.  After the
  wiring its count is 1.  The run brings it to \<open>Completed\<close> with a count of 0.  A reset
  of the node, shallow or deep, returns and leaves it \<open>Created\<close>, but its count, the one
  that \<open>trigger\<close> decrements and compares to zero, is still 0 and not the wired 1.
\<close>

theorem reset_keeps_decremented_count:
  "m_parent_count (heap chain_wired 1) = 1
   \<and> m_state (heap chain_run 1) = Completed
   \<and> m_parent_count (heap chain_run 1) = 0
   \<and> \<not> isl (reset (Suc 0) chain_run 1 False)
   \<and> m_state (heap (projr (reset (Suc 0) chain_run 1 False)) 1) = Created
   \<and> m_parent_count (heap (projr (reset (Suc 0) chain_run 1 False)) 1) = 0
   \<and> \<not> isl (reset (Suc (Suc 0)) chain_run 1 True)
   \<and> m_state (heap (projr (reset (Suc (Suc 0)) chain_run 1 True)) 1) = Created
   \<and> m_parent_count (heap (projr (reset (Suc (Suc 0)) chain_run 1 True)) 1) = 0"
  by (simp add: chain_run_def chain_wired_def wiring_eval run_eval)


end
